theory Spec2Isabelle
  imports
    Main
    "HOL-Library.AList"
    "HOL-Library.Char_ord"
    "HOL-Library.List_Lexorder"
    "HOL-Library.Product_Lexorder"
begin

section \<open>Term model (task\_7/backward\_chain.py)\<close>

text \<open>
  Terms are Python strings; a variable is a string that starts with \<open>?\<close>
  (\<^verbatim>\<open>arg.startswith('?')\<close>).  A \<^verbatim>\<open>Fact\<close> holds a predicate name and a tuple of
  argument strings, a \<^verbatim>\<open>Rule\<close> a conclusion and a list of premises (the field \<^verbatim>\<open>premises\<close> is \<open>premises_of\<close> here, \<open>premises\<close> being reserved).  Equality of facts
  is structural (\<^verbatim>\<open>Fact.__eq__\<close>), which is the equality of the datatype.
\<close>

datatype fact = Fact (predicate: string) (args: "string list")

datatype rule = Rule (conclusion: fact) (premises_of: "fact list")

text \<open>
  A binding dictionary \<^verbatim>\<open>Dict[str, str]\<close> is an association list with distinct keys
  in insertion order: \<^verbatim>\<open>k in d\<close> is \<open>map_of d k \<noteq> None\<close>, \<^verbatim>\<open>d[k] = v\<close> is
  \<open>AList.update k v d\<close> (replace in place, else append), and \<^verbatim>\<open>d.copy()\<close> is \<open>d\<close>
  itself, since the model has no aliasing.
\<close>

type_synonym bindings = "(string \<times> string) list"

definition is_var :: "string \<Rightarrow> bool" where
  "is_var s = (case s of [] \<Rightarrow> False | c # _ \<Rightarrow> c = CHR ''?'')"

definition ground :: "fact \<Rightarrow> bool" where
  "ground f = (filter is_var (args f) = [])"

text \<open>
  The chain-following loop of \<^verbatim>\<open>Fact.substitute\<close> (lines 41-50), for one argument
  \<open>arg\<close>, from the loop state \<open>(value, seen)\<close>.
\<close>

function substitute_loop :: "bindings \<Rightarrow> string \<Rightarrow> string \<Rightarrow> string set \<Rightarrow> string" where
  "substitute_loop b arg v seen =
     (case map_of b v of
        None \<Rightarrow> v
      | Some next_value \<Rightarrow>
          if v \<in> seen \<and> v \<noteq> arg then v
          else if next_value = v then v
          else substitute_loop b arg next_value (insert v seen))"
  by pat_completeness auto
termination
proof (relation "measure (\<lambda>(b, arg, v, seen).
         2 * card (fst ` set b - seen)
         + (if v = arg then 2 else if v \<in> seen then 0 else 1))", goal_cases)
  case 1
  show ?case by simp
next
  case (2 b arg v seen next_value)
  have fin: "finite (fst ` set b - seen)" by simp
  have vdom: "v \<in> fst ` set b"
    using 2(1) by (metis map_of_SomeD fst_conv image_eqI)
  show ?case
  proof (cases "v \<in> seen")
    case True
    then have "v = arg" using 2(2) by simp
    moreover have "insert v seen = seen" using True by auto
    moreover have "next_value \<noteq> arg" using 2(3) \<open>v = arg\<close> by simp
    ultimately show ?thesis by simp
  next
    case False
    then have "v \<in> fst ` set b - seen" using vdom by simp
    then have lt: "card (fst ` set b - insert v seen) < card (fst ` set b - seen)"
      using fin by (metis Diff_insert card_Diff1_less)
    have after: "(if next_value = arg then 2 else if next_value \<in> insert v seen then 0 else 1)
                   \<le> (2::nat)"
      by simp
    have before: "(1::nat) \<le> (if v = arg then 2 else if v \<in> seen then 0 else 1)"
      using False by simp
    have "2 * card (fst ` set b - insert v seen)
            + (if next_value = arg then 2 else if next_value \<in> insert v seen then 0 else 1)
          < 2 * card (fst ` set b - seen) + (if v = arg then 2 else if v \<in> seen then 0 else 1)"
      using lt after before by linarith
    then show ?thesis by (simp only: in_measure prod.case)
  qed
qed

definition substitute :: "fact \<Rightarrow> bindings \<Rightarrow> fact" where
  "substitute f b = Fact (predicate f) (map (\<lambda>arg. substitute_loop b arg arg {arg}) (args f))"

text \<open>The loop of \<^verbatim>\<open>Fact._resolve_binding\<close> (lines 56-64), from the state \<open>(value, seen)\<close>.\<close>

function resolve_loop :: "bindings \<Rightarrow> string \<Rightarrow> string set \<Rightarrow> string" where
  "resolve_loop b v seen =
     (case map_of b v of
        None \<Rightarrow> v
      | Some next_value \<Rightarrow>
          if next_value = v \<or> next_value \<in> seen then v
          else resolve_loop b next_value (insert next_value seen))"
  by pat_completeness auto
termination
proof (relation "measure (\<lambda>(b, v, seen). card (snd ` set b - seen))", goal_cases)
  case 1
  show ?case by simp
next
  case (2 b v seen next_value)
  have "next_value \<in> snd ` set b"
    using 2(1) by (metis map_of_SomeD snd_conv image_eqI)
  then have "next_value \<in> snd ` set b - seen" using 2(2) by simp
  moreover have "finite (snd ` set b - seen)" by simp
  ultimately have "card (snd ` set b - insert next_value seen) < card (snd ` set b - seen)"
    by (metis Diff_insert card_Diff1_less)
  then show ?case by simp
qed

definition resolve_binding :: "string \<Rightarrow> bindings \<Rightarrow> string" where
  "resolve_binding var b = resolve_loop b var {var}"

text \<open>
  The loop of \<^verbatim>\<open>Fact.match\<close> over \<^verbatim>\<open>zip(self.args, other.args)\<close> (lines 82-101);
  \<open>None\<close> is the \<^verbatim>\<open>return None\<close> of two different constants.
\<close>

fun match_args :: "string list \<Rightarrow> string list \<Rightarrow> bindings \<Rightarrow> bindings option" where
  "match_args (self_arg # ss) (other_arg # os) b =
     (let resolved_self = (if is_var self_arg then resolve_binding self_arg b else self_arg);
          resolved_other = (if is_var other_arg then resolve_binding other_arg b else other_arg)
      in if is_var resolved_self \<and> is_var resolved_other then
           (if resolved_self \<noteq> resolved_other
            then match_args ss os (AList.update resolved_self resolved_other b)
            else match_args ss os b)
         else if is_var resolved_self then
           match_args ss os (AList.update resolved_self resolved_other b)
         else if is_var resolved_other then
           match_args ss os (AList.update resolved_other resolved_self b)
         else if resolved_self \<noteq> resolved_other then None
         else match_args ss os b)"
| "match_args _ _ b = Some b"

definition match :: "fact \<Rightarrow> fact \<Rightarrow> bindings \<Rightarrow> bindings option" where
  "match self other b =
     (if predicate self \<noteq> predicate other then None
      else if length (args self) \<noteq> length (args other) then None
      else match_args (args self) (args other) b)"


section \<open>Knowledge base and prover state\<close>

text \<open>
  \<^verbatim>\<open>KnowledgeBase.facts\<close> is a Python set: \<open>facts\<close> lists its members without
  repetition, in the order in which \<^verbatim>\<open>for fact in self.kb.facts\<close> visits them (an order
  Python leaves to the implementation; where \<open>add_fact\<close> puts a new member is therefore
  arbitrary, and only its result on the empty set is used below).  \<^verbatim>\<open>rules\<close> is a list.
\<close>

record knowledge_base =
  facts :: "fact list"
  rules :: "rule list"

definition KnowledgeBase :: knowledge_base where
  "KnowledgeBase = \<lparr>facts = [], rules = []\<rparr>"

definition add_fact :: "knowledge_base \<Rightarrow> fact \<Rightarrow> knowledge_base" where
  "add_fact k f = (if f \<in> set (facts k) then k else k\<lparr>facts := facts k @ [f]\<rparr>)"

definition add_rule :: "knowledge_base \<Rightarrow> rule \<Rightarrow> knowledge_base" where
  "add_rule k r = k\<lparr>rules := rules k @ [r]\<rparr>"

text \<open>
  The fields of a \<^verbatim>\<open>BackwardChainer\<close> instance.  The methods mutate the instance; here
  they take the state and return the new one.  The text printed by \<^verbatim>\<open>_trace_print\<close> is
  not part of the model.
\<close>

record chainer =
  kb :: knowledge_base
  trace :: bool
  trace_depth :: int
  proved_goals :: "fact set"
  rule_counter :: int
  max_depth :: int
  current_goals :: "fact list"

definition BackwardChainer :: "knowledge_base \<Rightarrow> bool \<Rightarrow> int \<Rightarrow> chainer" where
  "BackwardChainer k tr md =
     \<lparr>kb = k, trace = tr, trace_depth = 0, proved_goals = {}, rule_counter = 0,
      max_depth = md, current_goals = []\<rparr>"

text \<open>The default of the parameter \<^verbatim>\<open>max_depth\<close> of \<^verbatim>\<open>__init__\<close>.\<close>

definition default_max_depth :: int where
  "default_max_depth = 50"

subsection \<open>Renaming of rule variables\<close>

text \<open>Python's \<^verbatim>\<open>str\<close> of an integer: decimal digits, \<open>-\<close> in front of a negative one.\<close>

function str_nat :: "nat \<Rightarrow> string" where
  "str_nat n = (if n < 10 then [char_of (48 + n)]
                else str_nat (n div 10) @ [char_of (48 + n mod 10)])"
  by pat_completeness auto
termination
  by (relation "measure (\<lambda>n. n)") auto

definition str_int :: "int \<Rightarrow> string" where
  "str_int i = (if i < 0 then CHR ''-'' # str_nat (nat (- i)) else str_nat (nat i))"

definition fact_variables :: "fact \<Rightarrow> string set" where
  "fact_variables f = set (filter is_var (args f))"

definition rule_variables :: "rule \<Rightarrow> string set" where
  "rule_variables r =
     fact_variables (conclusion r) \<union> (\<Union>p \<in> set (premises_of r). fact_variables p)"

text \<open>\<^verbatim>\<open>renaming.get(arg, arg)\<close> for \<^verbatim>\<open>renaming = {var: var + suffix for var in variables}\<close>.\<close>

definition renaming_get :: "string set \<Rightarrow> string \<Rightarrow> string \<Rightarrow> string" where
  "renaming_get variables suffix arg = (if arg \<in> variables then arg @ suffix else arg)"

definition rename_fact :: "string set \<Rightarrow> string \<Rightarrow> fact \<Rightarrow> fact" where
  "rename_fact variables suffix f =
     Fact (predicate f) (map (renaming_get variables suffix) (args f))"

definition rename_rule_variables :: "chainer \<Rightarrow> rule \<Rightarrow> rule \<times> chainer" where
  "rename_rule_variables st r =
     (let st1 = st\<lparr>rule_counter := rule_counter st + 1\<rparr>;
          suffix = CHR ''_'' # str_int (rule_counter st1);
          variables = rule_variables r
      in (Rule (rename_fact variables suffix (conclusion r))
               (map (rename_fact variables suffix) (premises_of r)), st1))"

section \<open>The prover\<close>

text \<open>
  Step 1 of \<^verbatim>\<open>backchain_to_goal\<close> (lines 234-244): the loop over the facts, from the
  state and the results collected so far.
\<close>

fun facts_loop ::
  "chainer \<Rightarrow> fact \<Rightarrow> bindings \<Rightarrow> fact list \<Rightarrow> bindings list \<Rightarrow> bindings list \<times> chainer" where
  "facts_loop st hypothesis b [] results = (results, st)"
| "facts_loop st hypothesis b (f # fs) results =
     (case match hypothesis f b of
        Some match_bindings \<Rightarrow>
          facts_loop
            (st\<lparr>proved_goals := insert (substitute hypothesis match_bindings) (proved_goals st)\<rparr>)
            hypothesis b fs (results @ [match_bindings])
      | None \<Rightarrow> facts_loop st hypothesis b fs results)"

text \<open>
  \<^verbatim>\<open>backchain_to_goal\<close> and \<^verbatim>\<open>_prove_premises\<close> call each other, and nothing in their
  arguments gets smaller: what stops them is the comparison of \<^verbatim>\<open>trace_depth\<close> with
  \<^verbatim>\<open>max_depth\<close>, two fields of the state.  The model therefore carries fuel, one unit for
  each nested call of \<^verbatim>\<open>backchain_to_goal\<close>; \<open>None\<close> means that the fuel ran out, and
  \<open>total_all\<close> below shows that it does not when the fuel exceeds
  \<^verbatim>\<open>max_depth - trace_depth\<close>.  \<open>rules_loop\<close> is step 2 (lines 247-265) and
  \<open>results_loop\<close> the loop of \<^verbatim>\<open>_prove_premises\<close> (lines 301-306).
  Python's own limit on the depth of recursion (a \<^verbatim>\<open>RecursionError\<close> for a very large
  \<^verbatim>\<open>max_depth\<close> or a rule with very many premises) is not part of the model.
  \<^verbatim>\<open>self.current_goals.pop()\<close> is \<open>butlast\<close>: the stack holds at least the goal pushed at
  line 231 (\<open>frame_all\<close> below), so the \<^verbatim>\<open>IndexError\<close> of an empty list cannot
  occur.
\<close>

function (sequential) backchain_to_goal ::
    "nat \<Rightarrow> chainer \<Rightarrow> fact \<Rightarrow> bindings \<Rightarrow> (bindings list \<times> chainer) option"
  and rules_loop ::
    "nat \<Rightarrow> chainer \<Rightarrow> fact \<Rightarrow> bindings \<Rightarrow> rule list \<Rightarrow> bindings list
       \<Rightarrow> (bindings list \<times> chainer) option"
  and prove_premises ::
    "nat \<Rightarrow> chainer \<Rightarrow> fact list \<Rightarrow> bindings \<Rightarrow> (bindings list \<times> chainer) option"
  and results_loop ::
    "nat \<Rightarrow> chainer \<Rightarrow> fact list \<Rightarrow> bindings list \<Rightarrow> bindings list
       \<Rightarrow> (bindings list \<times> chainer) option"
where
  "backchain_to_goal 0 st hypothesis b = None"
| "backchain_to_goal (Suc n) st hypothesis b =
     (let st1 = st\<lparr>trace_depth := trace_depth st + 1\<rparr>;
          bound_hypothesis = substitute hypothesis b
      in if trace_depth st1 > max_depth st1 then
           Some ([], st1\<lparr>trace_depth := trace_depth st1 - 1\<rparr>)
         else if bound_hypothesis \<in> set (current_goals st1) then
           Some ([], st1\<lparr>trace_depth := trace_depth st1 - 1\<rparr>)
         else if bound_hypothesis \<in> proved_goals st1 then
           Some ([b], st1\<lparr>trace_depth := trace_depth st1 - 1\<rparr>)
         else
           (let st2 = st1\<lparr>current_goals := current_goals st1 @ [bound_hypothesis]\<rparr>;
                (results, st3) = facts_loop st2 hypothesis b (facts (kb st2)) []
            in case rules_loop n st3 hypothesis b (rules (kb st3)) results of
                 None \<Rightarrow> None
               | Some (results', st4) \<Rightarrow>
                   Some (results',
                         st4\<lparr>current_goals := butlast (current_goals st4),
                             trace_depth := trace_depth st4 - 1\<rparr>)))"
| "rules_loop n st hypothesis b [] results = Some (results, st)"
| "rules_loop n st hypothesis b (r # rs) results =
     (let (renamed_rule, st1) = rename_rule_variables st r
      in case match hypothesis (conclusion renamed_rule) b of
           None \<Rightarrow> rules_loop n st1 hypothesis b rs results
         | Some match_bindings \<Rightarrow>
             (case prove_premises n st1 (premises_of renamed_rule) match_bindings of
                None \<Rightarrow> None
              | Some (premise_results, st2) \<Rightarrow>
                  if premise_results \<noteq> [] then
                    rules_loop n
                      (st2\<lparr>proved_goals :=
                             insert (substitute hypothesis match_bindings) (proved_goals st2)\<rparr>)
                      hypothesis b rs (results @ premise_results)
                  else rules_loop n st2 hypothesis b rs results))"
| "prove_premises n st [] b = Some ([b], st)"
| "prove_premises n st (first_premise # remaining_premises) b =
     (case backchain_to_goal n st first_premise b of
        None \<Rightarrow> None
      | Some (first_results, st1) \<Rightarrow>
          if first_results = [] then Some ([], st1)
          else results_loop n st1 remaining_premises first_results [])"
| "results_loop n st remaining_premises [] all_results = Some (all_results, st)"
| "results_loop n st remaining_premises (result_bindings # rbs) all_results =
     (if remaining_premises \<noteq> [] then
        (case prove_premises n st remaining_premises result_bindings of
           None \<Rightarrow> None
         | Some (remaining_results, st1) \<Rightarrow>
             results_loop n st1 remaining_premises rbs (all_results @ remaining_results))
      else results_loop n st remaining_premises rbs (all_results @ [result_bindings]))"
  by pat_completeness auto
termination
  by (relation "measures [
    (\<lambda>x. case x of Inl (Inl (n, _)) \<Rightarrow> n | Inl (Inr (n, _)) \<Rightarrow> n
                   | Inr (Inl (n, _)) \<Rightarrow> n | Inr (Inr (n, _)) \<Rightarrow> n),
    (\<lambda>x. case x of Inl (Inl _) \<Rightarrow> 0 | Inl (Inr _) \<Rightarrow> 2
                   | Inr (Inl _) \<Rightarrow> 1 | Inr (Inr _) \<Rightarrow> 1),
    (\<lambda>x. case x of Inl (Inl _) \<Rightarrow> 0 | Inl (Inr (n, st, h, b, rs, res)) \<Rightarrow> length rs
                   | Inr (Inl (n, st, ps, b)) \<Rightarrow> 2 * length ps + 1
                   | Inr (Inr (n, st, ps, rbs, acc)) \<Rightarrow> 2 * length ps + 2),
    (\<lambda>x. case x of Inr (Inr (n, st, ps, rbs, acc)) \<Rightarrow> length rbs | _ \<Rightarrow> 0)]")
    simp_all

text \<open>
  \<^verbatim>\<open>self.proved_goals.clear()\<close>, the one statement that \<^verbatim>\<open>prove\<close> and
  \<^verbatim>\<open>prove_with_bindings\<close> run before they call \<^verbatim>\<open>backchain_to_goal\<close>: its result is the
  state in which the search starts.
\<close>

definition clear_proved_goals :: "chainer \<Rightarrow> chainer" where
  "clear_proved_goals st = st\<lparr>proved_goals := {}\<rparr>"

definition prove :: "nat \<Rightarrow> chainer \<Rightarrow> fact \<Rightarrow> (bool \<times> chainer) option" where
  "prove fuel st hypothesis =
     (case backchain_to_goal fuel (clear_proved_goals st) hypothesis [] of
        None \<Rightarrow> None
      | Some (results, st') \<Rightarrow> Some (length results > 0, st'))"

definition prove_with_bindings ::
  "nat \<Rightarrow> chainer \<Rightarrow> fact \<Rightarrow> (bindings list \<times> chainer) option" where
  "prove_with_bindings fuel st hypothesis =
     backchain_to_goal fuel (clear_proved_goals st) hypothesis []"


section \<open>Solution surfacing (extract\_query\_bindings)\<close>

text \<open>The chain-following loop of lines 451-455, from the state \<open>(value, seen)\<close>.\<close>

function extract_loop :: "bindings \<Rightarrow> string \<Rightarrow> string set \<Rightarrow> string" where
  "extract_loop b v seen =
     (case map_of b v of
        None \<Rightarrow> v
      | Some next_value \<Rightarrow>
          if \<not> is_var v then v
          else if v \<in> seen then v
          else extract_loop b next_value (insert v seen))"
  by pat_completeness auto
termination
proof (relation "measure (\<lambda>(b, v, seen). card (fst ` set b - seen))", goal_cases)
  case 1
  show ?case by simp
next
  case (2 b v seen next_value)
  have "v \<in> fst ` set b"
    using 2(1) by (metis map_of_SomeD fst_conv image_eqI)
  then have "v \<in> fst ` set b - seen" using 2(3) by simp
  moreover have "finite (fst ` set b - seen)" by simp
  ultimately have "card (fst ` set b - insert v seen) < card (fst ` set b - seen)"
    by (metis Diff_insert card_Diff1_less)
  then show ?case by simp
qed

text \<open>
  The loop \<^verbatim>\<open>for var in query_vars\<close> (lines 446-458), which fills \<^verbatim>\<open>clean_bindings\<close>.
  \<^verbatim>\<open>query_vars\<close> is a Python set; the list \<open>query_vars\<close> gives its members once each.
  The order of the visit only decides the insertion order of \<^verbatim>\<open>clean_bindings\<close>, which
  neither its truth value nor \<^verbatim>\<open>sorted(binding.items())\<close> depends on.
\<close>

definition query_vars :: "fact \<Rightarrow> string list" where
  "query_vars f = remdups (filter is_var (args f))"

fun clean_loop :: "bindings \<Rightarrow> string list \<Rightarrow> bindings \<Rightarrow> bindings" where
  "clean_loop b [] clean_bindings = clean_bindings"
| "clean_loop b (var # vars) clean_bindings =
     (case map_of b var of
        None \<Rightarrow> clean_loop b vars clean_bindings
      | Some v \<Rightarrow>
          (let value = extract_loop b v {var}
           in if \<not> is_var value
              then clean_loop b vars (AList.update var value clean_bindings)
              else clean_loop b vars clean_bindings))"

text \<open>The loop over \<^verbatim>\<open>bindings_list\<close> (lines 443-462).\<close>

fun collect_loop :: "string list \<Rightarrow> bindings list \<Rightarrow> bindings list \<Rightarrow> bindings list" where
  "collect_loop qv [] result = result"
| "collect_loop qv (b # bs) result =
     (let clean_bindings = clean_loop b qv []
      in if clean_bindings \<noteq> [] then collect_loop qv bs (result @ [clean_bindings])
         else collect_loop qv bs result)"

text \<open>
  The removal of duplicates (lines 465-471); \<^verbatim>\<open>tuple(sorted(binding.items()))\<close> is the
  sorted list of the pairs, in the lexicographic order of Python's tuples and strings.
\<close>

fun unique_loop ::
  "bindings list \<Rightarrow> (string \<times> string) list set \<Rightarrow> bindings list \<Rightarrow> bindings list" where
  "unique_loop [] seen_bindings unique_results = unique_results"
| "unique_loop (binding # bs) seen_bindings unique_results =
     (let binding_tuple = sort binding
      in if binding_tuple \<notin> seen_bindings
         then unique_loop bs (insert binding_tuple seen_bindings) (unique_results @ [binding])
         else unique_loop bs seen_bindings unique_results)"

definition extract_query_bindings :: "fact \<Rightarrow> bindings list \<Rightarrow> bindings list" where
  "extract_query_bindings f bindings_list =
     unique_loop (collect_loop (query_vars f) bindings_list []) {} []"

text \<open>
  The source has no function \<^verbatim>\<open>solve\<close>: its callers (\<^verbatim>\<open>demo\<close>, lines 533-534) run
  \<^verbatim>\<open>prove_with_bindings\<close> and pass the result to \<^verbatim>\<open>extract_query_bindings\<close>.
  \<open>solve\<close> is that sequence.
\<close>

definition solve :: "nat \<Rightarrow> chainer \<Rightarrow> fact \<Rightarrow> (bindings list \<times> chainer) option" where
  "solve fuel st query =
     (case prove_with_bindings fuel st query of
        None \<Rightarrow> None
      | Some (bindings_list, st') \<Rightarrow> Some (extract_query_bindings query bindings_list, st'))"


section \<open>The parser (task\_8/prolog\_parser.py)\<close>

text \<open>
  Strings are lists of characters.  The character classes below are those of Python on
  ASCII text: \<^verbatim>\<open>str.isspace\<close>, \<^verbatim>\<open>str.isupper\<close> and the class \<^verbatim>\<open>\w\<close> of \<^verbatim>\<open>re\<close> also
  accept characters beyond ASCII, which the model does not cover.
\<close>

definition isspace :: "char \<Rightarrow> bool" where
  "isspace c = (of_char c \<in> {9, 10, 11, 12, 13, 28, 29, 30, 31, 32 :: nat})"

definition isupper :: "char \<Rightarrow> bool" where
  "isupper c = (65 \<le> (of_char c :: nat) \<and> (of_char c :: nat) \<le> 90)"

definition isword :: "char \<Rightarrow> bool" where
  "isword c = (let n = (of_char c :: nat)
               in (48 \<le> n \<and> n \<le> 57) \<or> (65 \<le> n \<and> n \<le> 90) \<or> n = 95 \<or> (97 \<le> n \<and> n \<le> 122))"

definition newline :: char where
  "newline = CHR 0x0A"

definition backslash :: char where
  "backslash = CHR 0x5C"

text \<open>\<^verbatim>\<open>s.strip()\<close> and \<^verbatim>\<open>s.rstrip('.')\<close>.\<close>

definition strip :: "string \<Rightarrow> string" where
  "strip s = rev (dropWhile isspace (rev (dropWhile isspace s)))"

definition rstrip_dot :: "string \<Rightarrow> string" where
  "rstrip_dot s = rev (dropWhile (\<lambda>c. c = CHR ''.'') (rev s))"

text \<open>\<^verbatim>\<open>s.startswith(p)\<close> and \<^verbatim>\<open>p in s\<close>.\<close>

definition startswith :: "string \<Rightarrow> string \<Rightarrow> bool" where
  "startswith s p = (take (length p) s = p)"

fun contains :: "string \<Rightarrow> string \<Rightarrow> bool" where
  "contains [] p = startswith [] p"
| "contains (c # cs) p = (startswith (c # cs) p \<or> contains cs p)"

text \<open>\<^verbatim>\<open>s.split(',')\<close>, from the text read since the last comma.\<close>

fun split_comma :: "string \<Rightarrow> string \<Rightarrow> string list" where
  "split_comma [] current = [current]"
| "split_comma (c # cs) current =
     (if c = CHR '','' then current # split_comma cs [] else split_comma cs (current @ [c]))"

text \<open>\<^verbatim>\<open>s.split(':-')\<close>, from the text read since the last separator.\<close>

fun split_neck :: "string \<Rightarrow> string \<Rightarrow> string list" where
  "split_neck [] current = [current]"
| "split_neck [c] current = [current @ [c]]"
| "split_neck (c # d # cs) current =
     (if c = CHR '':'' \<and> d = CHR ''-'' then current # split_neck cs []
      else split_neck (d # cs) (current @ [c]))"

text \<open>
  \<^verbatim>\<open>re.match(r'(\w+)\((.*?)\)', fact_str)\<close>, with its two groups: the longest run of word
  characters at the start, which must not be empty and must be followed by \<open>(\<close>; then
  the text up to the first \<open>)\<close>, which must exist and must come before any newline
  (\<open>.\<close> does not match one).  Nothing is asked of what follows the \<open>)\<close>.
\<close>

definition fact_regex :: "string \<Rightarrow> (string \<times> string) option" where
  "fact_regex s =
     (let w = takeWhile isword s; r = dropWhile isword s
      in if w = [] then None
         else case r of
                [] \<Rightarrow> None
              | c # r' \<Rightarrow>
                  if c \<noteq> CHR ''('' then None
                  else (let inside = (\<lambda>c. c \<noteq> CHR '')'' \<and> c \<noteq> newline)
                        in case dropWhile inside r' of
                             [] \<Rightarrow> None
                           | d # _ \<Rightarrow> if d = CHR '')'' then Some (w, takeWhile inside r')
                                      else None))"

definition args_raw :: "string \<Rightarrow> string list" where
  "args_raw args_str = map strip (split_comma args_str [])"

text \<open>The body of the loop of lines 64-73.\<close>

definition convert_arg :: "string \<Rightarrow> string" where
  "convert_arg arg =
     (if arg = ''_'' then ''?_''
      else case arg of
             [] \<Rightarrow> arg
           | c # _ \<Rightarrow> if isupper c then CHR ''?'' # arg else arg)"

definition parse_prolog_fact :: "string \<Rightarrow> fact option" where
  "parse_prolog_fact s =
     (let fact_str = rstrip_dot (strip s)
      in case fact_regex fact_str of
           None \<Rightarrow> None
         | Some (pred, args_str) \<Rightarrow>
             if args_str = [] then Some (Fact pred [])
             else Some (Fact pred (map convert_arg (args_raw args_str))))"

text \<open>\<^verbatim>\<open>split_premises\<close>: the loop over the characters and the last premise.\<close>

fun split_premises_loop :: "string \<Rightarrow> string list \<Rightarrow> string \<Rightarrow> int \<Rightarrow> string list" where
  "split_premises_loop [] premises current paren_depth =
     (if strip current \<noteq> [] then premises @ [strip current] else premises)"
| "split_premises_loop (c # cs) premises current paren_depth =
     (if c = CHR ''('' then split_premises_loop cs premises (current @ [c]) (paren_depth + 1)
      else if c = CHR '')'' then split_premises_loop cs premises (current @ [c]) (paren_depth - 1)
      else if c = CHR '','' \<and> paren_depth = 0
           then split_premises_loop cs (premises @ [strip current]) [] paren_depth
      else split_premises_loop cs premises (current @ [c]) paren_depth)"

definition split_premises :: "string \<Rightarrow> string list" where
  "split_premises premises_str = split_premises_loop premises_str [] [] 0"

text \<open>The test of line 151, and the loop over \<^verbatim>\<open>premise_strs\<close> (lines 149-156).\<close>

definition has_disequality :: "string \<Rightarrow> bool" where
  "has_disequality premise_str = contains premise_str [backslash, CHR ''='']"

definition starts_underscore :: "string \<Rightarrow> bool" where
  "starts_underscore premise_str = startswith premise_str ''_''"

fun premises_loop :: "string list \<Rightarrow> fact list \<Rightarrow> fact list" where
  "premises_loop [] premises = premises"
| "premises_loop (premise_str # ps) premises =
     (if has_disequality premise_str \<or> starts_underscore premise_str
      then premises_loop ps premises
      else case parse_prolog_fact premise_str of
             Some premise \<Rightarrow> premises_loop ps (premises @ [premise])
           | None \<Rightarrow> premises_loop ps premises)"

text \<open>
  \<^verbatim>\<open>parse_prolog_rule\<close>.  \<open>rule_parts\<close> is the list \<^verbatim>\<open>parts\<close> of line 133.
\<close>

definition rule_parts :: "string \<Rightarrow> string list" where
  "rule_parts s = split_neck (rstrip_dot (strip s)) []"

definition parse_prolog_rule :: "string \<Rightarrow> rule option" where
  "parse_prolog_rule s =
     (if \<not> contains (rstrip_dot (strip s)) '':-'' then None
      else case rule_parts s of
             [conclusion_str, premises_str] \<Rightarrow>
               (case parse_prolog_fact (strip conclusion_str) of
                  None \<Rightarrow> None
                | Some c \<Rightarrow>
                    Some (Rule c (premises_loop (split_premises (strip premises_str)) [])))
           | _ \<Rightarrow> None)"

text \<open>\<^verbatim>\<open>parse_prolog_line\<close>, whose result is tagged \<^verbatim>\<open>"fact"\<close> or \<^verbatim>\<open>"rule"\<close>.\<close>

datatype clause = FactClause fact | RuleClause rule

definition parse_prolog_line :: "string \<Rightarrow> clause option" where
  "parse_prolog_line l =
     (let line = strip l
      in if line = [] \<or> startswith line ''%'' then None
         else if contains line '':-'' then map_option RuleClause (parse_prolog_rule line)
         else map_option FactClause (parse_prolog_fact line))"

text \<open>
  \<^verbatim>\<open>parse_prolog_file\<close>, on the lines that \<^verbatim>\<open>for line in f\<close> reads from the file: the
  loop, from the statement collected so far.  A statement still open at the end of the
  file is dropped.
\<close>

fun parse_lines ::
  "string list \<Rightarrow> string \<Rightarrow> fact list \<times> rule list \<Rightarrow> fact list \<times> rule list" where
  "parse_lines [] current_statement (fs, rs) = (fs, rs)"
| "parse_lines (l # ls) current_statement (fs, rs) =
     (let line = strip l
      in if line = [] \<or> startswith line ''%'' then parse_lines ls current_statement (fs, rs)
         else (let current_statement' = current_statement @ '' '' @ line
               in if strip current_statement' \<noteq> [] \<and> last (strip current_statement') = CHR ''.''
                  then (case parse_prolog_line current_statement' of
                          Some (FactClause f) \<Rightarrow> parse_lines ls [] (fs @ [f], rs)
                        | Some (RuleClause r) \<Rightarrow> parse_lines ls [] (fs, rs @ [r])
                        | None \<Rightarrow> parse_lines ls [] (fs, rs))
                  else parse_lines ls current_statement' (fs, rs)))"

definition parse_prolog_file :: "string list \<Rightarrow> fact list \<times> rule list" where
  "parse_prolog_file file_lines = parse_lines file_lines [] ([], [])"


section \<open>Notions used by the properties\<close>

text \<open>
  What a call of the prover leaves as it found it, and what it may only increase: the
  knowledge base, the flag, the depth and its limit and the goal stack are the same
  afterwards; the rule counter and the proved set may have grown.
\<close>

definition frame :: "chainer \<Rightarrow> chainer \<Rightarrow> bool" where
  "frame st st' \<longleftrightarrow>
     kb st' = kb st \<and> trace st' = trace st \<and> trace_depth st' = trace_depth st \<and>
     max_depth st' = max_depth st \<and> current_goals st' = current_goals st \<and>
     rule_counter st \<le> rule_counter st' \<and> proved_goals st \<subseteq> proved_goals st'"



text \<open>An environment whose keys are all variables, as every environment built by \<open>match\<close> is.\<close>

definition var_keys :: "bindings \<Rightarrow> bool" where
  "var_keys b = list_all (\<lambda>(k, v). is_var k) b"

text \<open>
  Knowledge bases in the style of Datalog: every fact is ground, and every variable of
  the body of a rule occurs in its head.  For these an environment binds variables to
  constants only (\<open>const_env\<close>); \<open>bound_in f b\<close> says that \<open>b\<close> binds every variable
  of \<open>f\<close>, \<open>extends b r\<close> that \<open>r\<close> is such an environment and keeps the bindings of
  \<open>b\<close>, and \<open>ground_memo\<close> that the proved set holds ground atoms only.
\<close>

definition const_env :: "bindings \<Rightarrow> bool" where
  "const_env b = list_all (\<lambda>(k, v). is_var k \<and> \<not> is_var v) b"

definition bound_in :: "fact \<Rightarrow> bindings \<Rightarrow> bool" where
  "bound_in f b = list_all (\<lambda>a. is_var a \<longrightarrow> map_of b a \<noteq> None) (args f)"

definition extends :: "bindings \<Rightarrow> bindings \<Rightarrow> bool" where
  "extends b r \<longleftrightarrow> const_env r \<and> (\<forall>k. map_of b k \<noteq> None \<longrightarrow> map_of r k = map_of b k)"

definition range_restricted :: "rule \<Rightarrow> bool" where
  "range_restricted r =
     list_all (\<lambda>p. fact_variables p \<subseteq> fact_variables (conclusion r)) (premises_of r)"

definition datalog :: "knowledge_base \<Rightarrow> bool" where
  "datalog k \<longleftrightarrow> list_all ground (facts k) \<and> list_all range_restricted (rules k)"

definition ground_memo :: "chainer \<Rightarrow> bool" where
  "ground_memo st \<longleftrightarrow> (\<forall>g \<in> proved_goals st. ground g)"




section \<open>What every call preserves\<close>

lemma frame_refl: "frame st st"
  by (simp add: frame_def)

lemma frame_trans: "frame a b \<Longrightarrow> frame b c \<Longrightarrow> frame a c"
  by (auto simp: frame_def)

lemma frame_insert: "frame st (st\<lparr>proved_goals := insert g (proved_goals st)\<rparr>)"
  by (auto simp: frame_def)

lemma frame_rename: "frame st (snd (rename_rule_variables st r))"
  by (simp add: frame_def rename_rule_variables_def Let_def)

lemma frame_facts_loop: "frame st (snd (facts_loop st h b fs res))"
proof (induction fs arbitrary: st res)
  case Nil
  show ?case by (simp add: frame_refl)
next
  case (Cons f fs)
  show ?case
  proof (cases "match h f b")
    case None
    then show ?thesis using Cons.IH by simp
  next
    case (Some mb)
    then show ?thesis
      using frame_trans [OF frame_insert Cons.IH] by simp
  qed
qed

lemma frame_all:
  "backchain_to_goal n st h b = Some (r, st') \<Longrightarrow> frame st st'"
  "rules_loop n st h b rs res = Some (r, st') \<Longrightarrow> frame st st'"
  "prove_premises n st ps b = Some (r, st') \<Longrightarrow> frame st st'"
  "results_loop n st ps rbs acc = Some (r, st') \<Longrightarrow> frame st st'"
proof (induction n st h b and n st h b rs res and n st ps b and n st ps rbs acc
       arbitrary: r st' and r st' and r st' and r st'
       rule: backchain_to_goal_rules_loop_prove_premises_results_loop.induct)
  case (1 st hypothesis b)
  then show ?case by simp
next
  case (2 n st hypothesis b)
  let ?st1 = "st\<lparr>trace_depth := trace_depth st + 1\<rparr>"
  let ?bound = "substitute hypothesis b"
  let ?st2 = "?st1\<lparr>current_goals := current_goals ?st1 @ [?bound]\<rparr>"
  show ?case
  proof (cases "max_depth ?st1 < trace_depth ?st1 \<or> ?bound \<in> set (current_goals ?st1)
                 \<or> ?bound \<in> proved_goals ?st1")
    case True
    then show ?thesis using 2(2) by (auto simp: frame_def Let_def split: if_splits)
  next
    case False
    obtain res3 st3 where fl: "facts_loop ?st2 hypothesis b (facts (kb ?st2)) [] = (res3, st3)"
      by (cases "facts_loop ?st2 hypothesis b (facts (kb ?st2)) []") auto
    have f23: "frame ?st2 st3" using frame_facts_loop [of ?st2 hypothesis b "facts (kb ?st2)" "[]"] fl by simp
    from False 2(2) fl obtain st4 where
      rl: "rules_loop n st3 hypothesis b (rules (kb st3)) res3 = Some (r, st4)" and
      st': "st' = st4\<lparr>current_goals := butlast (current_goals st4), trace_depth := trace_depth st4 - 1\<rparr>"
      by (auto simp: Let_def split: option.splits)
    have f34: "frame st3 st4"
      using 2(1) [OF refl refl _ _ _ refl refl fl [symmetric] rl] False by simp
    show ?thesis using f23 f34 st' by (auto simp: frame_def)
  qed
next
  case (3 n st hypothesis b results)
  then show ?case by (simp add: frame_refl)
next
  case (4 n st hypothesis b r' rs results)
  obtain rr st1 where rn: "rename_rule_variables st r' = (rr, st1)"
    by (cases "rename_rule_variables st r'") auto
  have f01: "frame st st1" using frame_rename [of st r'] rn by simp
  show ?case
  proof (cases "match hypothesis (conclusion rr) b")
    case None
    then have "rules_loop n st1 hypothesis b rs results = Some (r, st')"
      using 4(5) rn by simp
    then have "frame st1 st'" using 4(1) [OF refl rn [symmetric] None] by simp
    then show ?thesis using f01 frame_trans by blast
  next
    case (Some mb)
    from 4(5) rn Some obtain pres st2 where
      pp: "prove_premises n st1 (premises_of rr) mb = Some (pres, st2)"
      by (auto split: option.splits)
    have f12: "frame st1 st2" using 4(2) [OF refl rn [symmetric] Some pp] .
    show ?thesis
    proof (cases "pres \<noteq> []")
      case True
      let ?st2' = "st2\<lparr>proved_goals := insert (substitute hypothesis mb) (proved_goals st2)\<rparr>"
      have "rules_loop n ?st2' hypothesis b rs (results @ pres) = Some (r, st')"
        using 4(5) rn Some pp True by simp
      then have "frame ?st2' st'"
        using 4(3) [OF refl rn [symmetric] Some pp refl True] by simp
      then show ?thesis using f01 f12 frame_insert frame_trans by blast
    next
      case False
      have "rules_loop n st2 hypothesis b rs results = Some (r, st')"
        using 4(5) rn Some pp False by simp
      then have "frame st2 st'"
        using 4(4) [OF refl rn [symmetric] Some pp refl False] by simp
      then show ?thesis using f01 f12 frame_trans by blast
    qed
  qed
next
  case (5 n st b)
  then show ?case by (simp add: frame_refl)
next
  case (6 n st first_premise remaining_premises b)
  from 6(3) obtain fr st1 where
    bc: "backchain_to_goal n st first_premise b = Some (fr, st1)"
    by (auto split: option.splits)
  have f01: "frame st st1" using 6(1) [OF bc] .
  show ?case
  proof (cases "fr = []")
    case True
    then show ?thesis using 6(3) bc f01 by simp
  next
    case False
    then have "results_loop n st1 remaining_premises fr [] = Some (r, st')"
      using 6(3) bc by simp
    then have "frame st1 st'" using 6(2) [OF bc refl False] by simp
    then show ?thesis using f01 frame_trans by blast
  qed
next
  case (7 n st remaining_premises all_results)
  then show ?case by (simp add: frame_refl)
next
  case (8 n st remaining_premises result_bindings rbs all_results)
  show ?case
  proof (cases "remaining_premises \<noteq> []")
    case True
    from 8(4) True obtain rr st1 where
      pp: "prove_premises n st remaining_premises result_bindings = Some (rr, st1)"
      by (auto split: option.splits)
    have f01: "frame st st1" using 8(1) [OF True pp] .
    have "results_loop n st1 remaining_premises rbs (all_results @ rr) = Some (r, st')"
      using 8(4) True pp by simp
    then have "frame st1 st'" using 8(2) [OF True pp refl] by simp
    then show ?thesis using f01 frame_trans by blast
  next
    case False
    then show ?thesis using 8(3) 8(4) by simp
  qed
qed


section \<open>Termination\<close>



section \<open>More fuel changes no result\<close>

lemma rules_loop_step:
  "rules_loop n st h b (r # rs) res =
     (case rules_loop n st h b [r] res of
        None \<Rightarrow> None
      | Some (res1, st1) \<Rightarrow> rules_loop n st1 h b rs res1)"
  by (simp split: prod.splits option.splits)

lemma results_loop_step:
  "results_loop n st ps (rb # rbs) acc =
     (case results_loop n st ps [rb] acc of
        None \<Rightarrow> None
      | Some (acc1, st1) \<Rightarrow> results_loop n st1 ps rbs acc1)"
  by (simp split: prod.splits option.splits)



section \<open>The goal stack\<close>



section \<open>Matching and substitution on ground goals\<close>

lemma substitute_loop_unbound: "map_of b v = None \<Longrightarrow> substitute_loop b arg v seen = v"
  by simp

lemma substitute_empty: "substitute f [] = f"
  by (simp add: substitute_def)

lemma var_keys_update: "var_keys b \<Longrightarrow> is_var k \<Longrightarrow> var_keys (AList.update k v b)"
  by (induction b) (auto simp: var_keys_def)

lemma var_keys_unbound: "var_keys b \<Longrightarrow> \<not> is_var a \<Longrightarrow> map_of b a = None"
  by (induction b) (auto simp: var_keys_def)

lemma match_args_var_keys:
  "var_keys b \<Longrightarrow> match_args ss os b = Some mb \<Longrightarrow> var_keys mb"
proof (induction ss os b rule: match_args.induct)
  case (1 self_arg ss other_arg os b)
  then show ?case
    by (auto simp: Let_def var_keys_update split: if_splits)
qed simp_all

lemma match_var_keys: "var_keys b \<Longrightarrow> match h f b = Some mb \<Longrightarrow> var_keys mb"
  by (auto simp: match_def match_args_var_keys split: if_splits)

lemma substitute_ground: 
  assumes "ground h" "var_keys b"
  shows "substitute h b = h"
proof -
  have na: "\<And>a. a \<in> set (args h) \<Longrightarrow> \<not> is_var a"
    using assms(1) by (auto simp: ground_def filter_empty_conv)
  have "map (\<lambda>arg. substitute_loop b arg arg {arg}) (args h) = args h"
  proof (rule map_idI)
    fix a assume "a \<in> set (args h)"
    then have "map_of b a = None" using na assms(2) var_keys_unbound by blast
    then show "substitute_loop b a a {a} = a" by simp
  qed
  then show ?thesis by (simp add: substitute_def)
qed

lemma match_args_ground_self:
  "filter is_var as = [] \<Longrightarrow> match_args as as b = Some b"
proof (induction as)
  case Nil
  show ?case by simp
next
  case (Cons a as)
  then have "\<not> is_var a" "filter is_var as = []"
    by (auto split: if_splits)
  then show ?case using Cons.IH by (simp add: Let_def)
qed

lemma match_ground_self: "ground f \<Longrightarrow> match f f b = Some b"
  by (simp add: match_def ground_def match_args_ground_self)

lemma collect_loop_no_vars: "collect_loop [] bl result = result"
  by (induction bl arbitrary: result) simp_all

lemma extract_ground: "ground g \<Longrightarrow> extract_query_bindings g bl = []"
  by (simp add: extract_query_bindings_def query_vars_def ground_def collect_loop_no_vars)

lemma backchain_single_fact:
  assumes "ground f" "1 \<le> md"
  shows "backchain_to_goal (Suc n) (clear_proved_goals (BackwardChainer (add_fact KnowledgeBase f) tr md)) f []
         = Some ([[]], (BackwardChainer (add_fact KnowledgeBase f) tr md)\<lparr>proved_goals := {f}\<rparr>)"
  using assms
  by (simp add: clear_proved_goals_def BackwardChainer_def add_fact_def KnowledgeBase_def
        Let_def substitute_empty match_ground_self)

section \<open>Ground goals in a Datalog knowledge base\<close>

lemma const_env_key: "const_env b \<Longrightarrow> map_of b k = Some v \<Longrightarrow> is_var k \<and> \<not> is_var v"
  by (induction b) (auto simp: const_env_def split: if_splits)

lemma const_env_unbound: "const_env b \<Longrightarrow> \<not> is_var a \<Longrightarrow> map_of b a = None"
  using const_env_key by (cases "map_of b a") auto

lemma const_env_update:
  "const_env b \<Longrightarrow> is_var k \<Longrightarrow> \<not> is_var v \<Longrightarrow> const_env (AList.update k v b)"
  by (induction b) (auto simp: const_env_def)

lemma resolve_const_env:
  assumes "const_env b"
  shows "resolve_binding a b = (case map_of b a of None \<Rightarrow> a | Some c \<Rightarrow> c)"
proof (cases "map_of b a")
  case None
  then show ?thesis by (simp add: resolve_binding_def)
next
  case (Some c)
  have kc: "is_var a \<and> \<not> is_var c" using const_env_key [OF assms Some] .
  then have "c \<noteq> a" by auto
  moreover have "map_of b c = None" using const_env_unbound [OF assms] kc by simp
  ultimately show ?thesis using Some by (simp add: resolve_binding_def)
qed

lemma substitute_loop_const_env:
  assumes "const_env b"
  shows "substitute_loop b a a {a} = (case map_of b a of None \<Rightarrow> a | Some c \<Rightarrow> c)"
proof (cases "map_of b a")
  case None
  then show ?thesis by simp
next
  case (Some c)
  have kc: "is_var a \<and> \<not> is_var c" using const_env_key [OF assms Some] .
  then have "c \<noteq> a" by auto
  moreover have "map_of b c = None" using const_env_unbound [OF assms] kc by simp
  ultimately show ?thesis using Some by simp
qed

lemma substitute_bound_ground:
  assumes "const_env b" and "bound_in h b"
  shows "ground (substitute h b)"
proof -
  have "\<not> is_var (substitute_loop b a a {a})" if "a \<in> set (args h)" for a
  proof (cases "map_of b a")
    case None
    then have "\<not> is_var a" using assms(2) that by (auto simp: bound_in_def list_all_iff)
    then show ?thesis using None by simp
  next
    case (Some c)
    then show ?thesis
      using substitute_loop_const_env [OF assms(1), of a] const_env_key [OF assms(1) Some] by simp
  qed
  then show ?thesis
    by (auto simp: ground_def substitute_def filter_empty_conv)
qed

lemma substitute_extends:
  assumes "const_env b" and "bound_in h b" and "extends b r"
  shows "substitute h r = substitute h b"
proof -
  have r: "const_env r" using assms(3) by (simp add: extends_def)
  have "substitute_loop r a a {a} = substitute_loop b a a {a}" if "a \<in> set (args h)" for a
  proof (cases "map_of b a")
    case None
    then have "\<not> is_var a" using assms(2) that by (auto simp: bound_in_def list_all_iff)
    then have "map_of r a = None" using const_env_unbound [OF r] by simp
    then show ?thesis using None by simp
  next
    case (Some c)
    then have "map_of r a = Some c" using assms(3) by (simp add: extends_def)
    then show ?thesis
      using Some substitute_loop_const_env [OF r, of a] substitute_loop_const_env [OF assms(1), of a]
      by simp
  qed
  then show ?thesis by (simp add: substitute_def)
qed

lemma extends_refl: "const_env b \<Longrightarrow> extends b b"
  by (simp add: extends_def)

lemma extends_trans: "extends a b \<Longrightarrow> extends b c \<Longrightarrow> extends a c"
  by (auto simp: extends_def)

lemma extends_update:
  assumes "const_env b" and "map_of b k = None" and "is_var k" and "\<not> is_var v"
  shows "extends b (AList.update k v b)"
  using assms const_env_update [OF assms(1,3,4)]
  by (auto simp: extends_def update_conv')

lemma bound_in_extends: "bound_in h b \<Longrightarrow> extends b r \<Longrightarrow> bound_in h r"
  by (auto simp: bound_in_def extends_def list_all_iff)

lemma match_args_step:
  assumes "\<not> is_var rs"
    and "rs = (if is_var s then resolve_binding s b else s)"
    and "ro = (if is_var o' then resolve_binding o' b else o')"
  shows "match_args (s # ss) (o' # os) b =
           (if is_var ro then match_args ss os (AList.update ro rs b)
            else if rs \<noteq> ro then None
            else match_args ss os b)"
proof -
  have "match_args (s # ss) (o' # os) b =
          (if is_var rs \<and> is_var ro then
             (if rs \<noteq> ro then match_args ss os (AList.update rs ro b)
              else match_args ss os b)
           else if is_var rs then match_args ss os (AList.update rs ro b)
           else if is_var ro then match_args ss os (AList.update ro rs b)
           else if rs \<noteq> ro then None
           else match_args ss os b)"
    unfolding assms(2,3) by (simp only: match_args.simps Let_def)
  then show ?thesis using assms(1) by simp
qed

lemma match_args_datalog:
  "match_args ss os b = Some mb \<Longrightarrow> length ss = length os \<Longrightarrow> const_env b \<Longrightarrow>
   \<forall>a \<in> set ss. is_var a \<longrightarrow> map_of b a \<noteq> None \<Longrightarrow>
   extends b mb \<and> (\<forall>a \<in> set os. is_var a \<longrightarrow> map_of mb a \<noteq> None)"
proof (induction ss arbitrary: os b)
  case Nil
  then show ?case by (simp add: extends_refl)
next
  case (Cons s ss)
  obtain o' os' where os: "os = o' # os'" using Cons.prems(2) by (cases os) auto
  define rs where "rs = (if is_var s then resolve_binding s b else s)"
  define ro where "ro = (if is_var o' then resolve_binding o' b else o')"
  have ce: "const_env b" using Cons.prems(3) .
  have rs: "\<not> is_var rs"
  proof (cases "is_var s")
    case True
    then obtain c where c: "map_of b s = Some c" using Cons.prems(4) by auto
    then show ?thesis
      using True resolve_const_env [OF ce, of s] const_env_key [OF ce c] by (simp add: rs_def)
  next
    case False
    then show ?thesis by (simp add: rs_def)
  qed
  note step = match_args_step [OF rs rs_def ro_def, of ss os']
  have len: "length ss = length os'" using Cons.prems(2) os by simp
  show ?case
  proof (cases "is_var ro")
    case True
    have o: "is_var o'"
    proof (rule ccontr)
      assume "\<not> is_var o'"
      then show False using True by (simp add: ro_def)
    qed
    have un: "map_of b o' = None"
    proof (cases "map_of b o'")
      case None
      then show ?thesis .
    next
      case (Some c)
      then have "ro = c" using o resolve_const_env [OF ce, of o'] by (simp add: ro_def)
      then show ?thesis using True const_env_key [OF ce Some] by simp
    qed
    have ro: "ro = o'" using o un resolve_const_env [OF ce, of o'] by (simp add: ro_def)
    let ?b' = "AList.update o' rs b"
    have run: "match_args ss os' ?b' = Some mb"
      using Cons.prems(1) step True ro os by simp
    have ext: "extends b ?b'" using extends_update [OF ce un o rs] .
    then have ce': "const_env ?b'" by (simp add: extends_def)
    have bnd: "\<forall>a \<in> set ss. is_var a \<longrightarrow> map_of ?b' a \<noteq> None"
      using Cons.prems(4) ext by (auto simp: extends_def)
    have ih: "extends ?b' mb \<and> (\<forall>a \<in> set os'. is_var a \<longrightarrow> map_of mb a \<noteq> None)"
      using Cons.IH [OF run len ce' bnd] .
    have "map_of ?b' o' = Some rs" by (simp add: update_conv')
    then have "map_of mb o' \<noteq> None" using ih by (auto simp: extends_def)
    moreover have "extends b mb" using ih ext extends_trans by blast
    ultimately show ?thesis using ih os by simp
  next
    case False
    have run: "match_args ss os' b = Some mb"
      using Cons.prems(1) step False os by (simp split: if_splits)
    have bnd: "\<forall>a \<in> set ss. is_var a \<longrightarrow> map_of b a \<noteq> None" using Cons.prems(4) by simp
    have ih: "extends b mb \<and> (\<forall>a \<in> set os'. is_var a \<longrightarrow> map_of mb a \<noteq> None)"
      using Cons.IH [OF run len ce bnd] .
    have "map_of mb o' \<noteq> None" if v: "is_var o'"
    proof -
      have "map_of b o' \<noteq> None"
      proof
        assume "map_of b o' = None"
        then have "ro = o'" using v resolve_const_env [OF ce, of o'] by (simp add: ro_def)
        then show False using False v by simp
      qed
      then show ?thesis using ih by (auto simp: extends_def)
    qed
    then show ?thesis using ih os by simp
  qed
qed

lemma match_datalog:
  assumes "match h other b = Some mb" and "const_env b" and "bound_in h b"
  shows "extends b mb \<and> bound_in other mb"
proof -
  have len: "length (args h) = length (args other)"
    and run: "match_args (args h) (args other) b = Some mb"
    using assms(1) by (auto simp: match_def split: if_splits)
  have "\<forall>a \<in> set (args h). is_var a \<longrightarrow> map_of b a \<noteq> None"
    using assms(3) by (simp add: bound_in_def list_all_iff)
  then show ?thesis
    using match_args_datalog [OF run len assms(2)] by (simp add: bound_in_def list_all_iff)
qed

lemma facts_loop_datalog:
  assumes "const_env b" and "bound_in h b"
  shows "ground_memo st \<Longrightarrow> list_all (extends b) res \<Longrightarrow>
         ground_memo (snd (facts_loop st h b fs res))
         \<and> list_all (extends b) (fst (facts_loop st h b fs res))"
proof (induction fs arbitrary: st res)
  case Nil
  then show ?case by simp
next
  case (Cons f fs)
  show ?case
  proof (cases "match h f b")
    case None
    then show ?thesis using Cons by simp
  next
    case (Some mb)
    have ext: "extends b mb" using match_datalog [OF Some assms] by simp
    have "ground (substitute h mb)"
      using substitute_extends [OF assms ext] substitute_bound_ground [OF assms] by simp
    then have "ground_memo (st\<lparr>proved_goals := insert (substitute h mb) (proved_goals st)\<rparr>)"
      using Cons.prems(1) by (simp add: ground_memo_def)
    moreover have "list_all (extends b) (res @ [mb])" using Cons.prems(2) ext by simp
    ultimately show ?thesis using Cons.IH Some by simp
  qed
qed

lemma renamed_premise_bound:
  assumes "range_restricted r" and "rename_rule_variables st r = (rr, st1)"
    and "bound_in (conclusion rr) mb" and "p \<in> set (premises_of rr)"
  shows "bound_in p mb"
proof -
  let ?V = "rule_variables r"
  let ?sfx = "CHR ''_'' # str_int (rule_counter st + 1)"
  have rr: "rr = Rule (rename_fact ?V ?sfx (conclusion r))
                   (map (rename_fact ?V ?sfx) (premises_of r))"
    using assms(2) by (auto simp: rename_rule_variables_def Let_def)
  then obtain p0 where p0: "p0 \<in> set (premises_of r)" and p: "p = rename_fact ?V ?sfx p0"
    using assms(4) by auto
  have sub: "fact_variables p0 \<subseteq> fact_variables (conclusion r)"
    using assms(1) p0 by (simp add: range_restricted_def list_all_iff)
  have Vvars: "\<And>v. v \<in> ?V \<Longrightarrow> is_var v"
    by (auto simp: rule_variables_def fact_variables_def)
  have "map_of mb a \<noteq> None" if a: "a \<in> set (args p)" and va: "is_var a" for a
  proof -
    obtain a0 where a0: "a0 \<in> set (args p0)" and aa: "a = renaming_get ?V ?sfx a0"
      using a p by (auto simp: rename_fact_def)
    have "a0 \<in> ?V"
    proof (rule ccontr)
      assume n: "a0 \<notin> ?V"
      then have "a = a0" using aa by (simp add: renaming_get_def)
      then have "a0 \<in> fact_variables p0" using a0 va by (simp add: fact_variables_def)
      then show False using n p0 by (auto simp: rule_variables_def)
    qed
    then have "is_var a0" using Vvars by simp
    then have "a0 \<in> fact_variables p0" using a0 by (simp add: fact_variables_def)
    then have "a0 \<in> set (args (conclusion r))" using sub by (auto simp: fact_variables_def)
    then have "a \<in> set (args (conclusion rr))"
      using aa rr by (auto simp: rename_fact_def)
    then show ?thesis using assms(3) va by (auto simp: bound_in_def list_all_iff)
  qed
  then show ?thesis by (simp add: bound_in_def list_all_iff)
qed

lemma datalog_frame: "frame st st' \<Longrightarrow> datalog (kb st) \<Longrightarrow> datalog (kb st')"
  by (simp add: frame_def)

lemma ground_memo_insert:
  "ground_memo st \<Longrightarrow> ground g \<Longrightarrow> ground_memo (st\<lparr>proved_goals := insert g (proved_goals st)\<rparr>)"
  by (simp add: ground_memo_def)

lemma extends_list_trans:
  "extends b0 rb \<Longrightarrow> list_all (extends rb) rs \<Longrightarrow> list_all (extends b0) rs"
  using extends_trans by (auto simp: list_all_iff)

lemma datalog_all:
  "backchain_to_goal n st h b = Some (res, st') \<Longrightarrow> datalog (kb st) \<Longrightarrow> const_env b \<Longrightarrow>
     bound_in h b \<Longrightarrow> ground_memo st \<Longrightarrow>
     ground_memo st' \<and> list_all (extends b) res"
  "rules_loop n st h b rs res0 = Some (res, st') \<Longrightarrow> datalog (kb st) \<Longrightarrow>
     list_all range_restricted rs \<Longrightarrow> const_env b \<Longrightarrow> bound_in h b \<Longrightarrow> ground_memo st \<Longrightarrow>
     list_all (extends b) res0 \<Longrightarrow>
     ground_memo st' \<and> list_all (extends b) res"
  "prove_premises n st ps b = Some (res, st') \<Longrightarrow> datalog (kb st) \<Longrightarrow> const_env b \<Longrightarrow>
     list_all (\<lambda>p. bound_in p b) ps \<Longrightarrow> ground_memo st \<Longrightarrow>
     ground_memo st' \<and> list_all (extends b) res"
  "results_loop n st ps rbs acc = Some (res, st') \<Longrightarrow> datalog (kb st) \<Longrightarrow>
     list_all (extends b0) rbs \<Longrightarrow> list_all (extends b0) acc \<Longrightarrow>
     list_all (\<lambda>p. bound_in p b0) ps \<Longrightarrow> ground_memo st \<Longrightarrow>
     ground_memo st' \<and> list_all (extends b0) res"
proof (induction n st h b and n st h b rs res0 and n st ps b and n st ps rbs acc
       arbitrary: res st' and res st' and res st' and res st' b0
       rule: backchain_to_goal_rules_loop_prove_premises_results_loop.induct)
  case (1 st hypothesis b)
  then show ?case by simp
next
  case (2 n st hypothesis b)
  let ?st1 = "st\<lparr>trace_depth := trace_depth st + 1\<rparr>"
  let ?bound = "substitute hypothesis b"
  let ?st2 = "?st1\<lparr>current_goals := current_goals ?st1 @ [?bound]\<rparr>"
  show ?case
  proof (cases "max_depth ?st1 < trace_depth ?st1 \<or> ?bound \<in> set (current_goals ?st1)
                 \<or> ?bound \<in> proved_goals ?st1")
    case True
    then show ?thesis
      using 2(2) 2(4) 2(6) by (auto simp: Let_def ground_memo_def extends_refl split: if_splits)
  next
    case False
    obtain res3 st3 where fl: "facts_loop ?st2 hypothesis b (facts (kb ?st2)) [] = (res3, st3)"
      by (cases "facts_loop ?st2 hypothesis b (facts (kb ?st2)) []") auto
    have f23: "frame ?st2 st3"
      using frame_facts_loop [of ?st2 hypothesis b "facts (kb ?st2)" "[]"] fl by simp
    have gm2: "ground_memo ?st2" using 2(6) by (simp add: ground_memo_def)
    have fd: "ground_memo st3 \<and> list_all (extends b) res3"
      using facts_loop_datalog [OF 2(4) 2(5) gm2, of "[]" "facts (kb ?st2)"] fl by simp
    have d3: "datalog (kb st3)" using f23 2(3) by (simp add: frame_def)
    then have rr: "list_all range_restricted (rules (kb st3))" by (simp add: datalog_def)
    from False 2(2) fl obtain st4 where
      rl: "rules_loop n st3 hypothesis b (rules (kb st3)) res3 = Some (res, st4)" and
      st': "st' = st4\<lparr>current_goals := butlast (current_goals st4), trace_depth := trace_depth st4 - 1\<rparr>"
      by (auto simp: Let_def split: option.splits)
    have c1: "\<not> max_depth ?st1 < trace_depth ?st1" and c2: "?bound \<notin> set (current_goals ?st1)"
      and c3: "?bound \<notin> proved_goals ?st1"
      using False by auto
    have "ground_memo st4 \<and> list_all (extends b) res"
      using 2(1) [OF refl refl c1 c2 c3 refl refl fl [symmetric] rl d3 rr 2(4) 2(5)] fd by simp
    then show ?thesis using st' by (simp add: ground_memo_def)
  qed
next
  case (3 n st hypothesis b results)
  then show ?case by simp
next
  case (4 n st hypothesis b r' rs results)
  obtain rr st1 where rn: "rename_rule_variables st r' = (rr, st1)"
    by (cases "rename_rule_variables st r'") auto
  have f01: "frame st st1" using frame_rename [of st r'] rn by simp
  have d1: "datalog (kb st1)" using datalog_frame [OF f01 4(6)] .
  have gm1: "ground_memo st1" using 4(10) rn
    by (auto simp: ground_memo_def rename_rule_variables_def Let_def)
  have rr': "range_restricted r'" and rrs: "list_all range_restricted rs" using 4(7) by simp_all
  show ?case
  proof (cases "match hypothesis (conclusion rr) b")
    case None
    then have "rules_loop n st1 hypothesis b rs results = Some (res, st')"
      using 4(5) rn by simp
    then show ?thesis
      using 4(1) [OF refl rn [symmetric] None _ d1 rrs 4(8) 4(9) gm1 4(11)] by simp
  next
    case (Some mb)
    have md: "extends b mb \<and> bound_in (conclusion rr) mb"
      using match_datalog [OF Some 4(8) 4(9)] .
    then have cmb: "const_env mb" by (simp add: extends_def)
    have pb: "list_all (\<lambda>p. bound_in p mb) (premises_of rr)"
      using renamed_premise_bound [OF rr' rn] md by (simp add: list_all_iff)
    from 4(5) rn Some obtain pres st2 where
      pp: "prove_premises n st1 (premises_of rr) mb = Some (pres, st2)"
      by (auto split: option.splits)
    have p2: "ground_memo st2 \<and> list_all (extends mb) pres"
      using 4(2) [OF refl rn [symmetric] Some pp d1 cmb pb gm1] .
    have d2: "datalog (kb st2)" using datalog_frame [OF frame_all(3) [OF pp] d1] .
    have pres: "list_all (extends b) pres"
      using extends_list_trans [of b mb pres] md p2 by simp
    show ?thesis
    proof (cases "pres \<noteq> []")
      case True
      let ?st2' = "st2\<lparr>proved_goals := insert (substitute hypothesis mb) (proved_goals st2)\<rparr>"
      have "ground (substitute hypothesis mb)"
        using substitute_extends [OF 4(8) 4(9), of mb] substitute_bound_ground [OF 4(8) 4(9)] md
        by simp
      then have gm2: "ground_memo ?st2'" using p2 ground_memo_insert by blast
      have d2': "datalog (kb ?st2')" using d2 by simp
      have acc: "list_all (extends b) (results @ pres)" using 4(11) pres by simp
      have "rules_loop n ?st2' hypothesis b rs (results @ pres) = Some (res, st')"
        using 4(5) rn Some pp True by simp
      then show ?thesis
        using 4(3) [OF refl rn [symmetric] Some pp refl True _ d2' rrs 4(8) 4(9) gm2 acc] by simp
    next
      case False
      have gm2: "ground_memo st2" using p2 by simp
      have "rules_loop n st2 hypothesis b rs results = Some (res, st')"
        using 4(5) rn Some pp False by simp
      then show ?thesis
        using 4(4) [OF refl rn [symmetric] Some pp refl False _ d2 rrs 4(8) 4(9) gm2 4(11)] by simp
    qed
  qed
next
  case (5 n st b)
  have "res = [b]" and "st' = st" using 5(1) by auto
  then show ?case using 5(3) 5(5) by (simp add: extends_refl)
next
  case (6 n st first_premise remaining_premises b)
  from 6(3) obtain fr st1 where
    bc: "backchain_to_goal n st first_premise b = Some (fr, st1)"
    by (auto split: option.splits)
  have fb: "bound_in first_premise b" and rb: "list_all (\<lambda>p. bound_in p b) remaining_premises"
    using 6(6) by simp_all
  have r1: "ground_memo st1 \<and> list_all (extends b) fr"
    using 6(1) [OF bc 6(4) 6(5) fb 6(7)] .
  have d1: "datalog (kb st1)" using datalog_frame [OF frame_all(1) [OF bc] 6(4)] .
  show ?case
  proof (cases "fr = []")
    case True
    then show ?thesis using 6(3) bc r1 by simp
  next
    case False
    then have "results_loop n st1 remaining_premises fr [] = Some (res, st')"
      using 6(3) bc by simp
    then show ?thesis
      using 6(2) [OF bc refl False _ d1, of res st' b] r1 rb by simp
  qed
next
  case (7 n st remaining_premises all_results)
  then show ?case by simp
next
  case (8 n st remaining_premises result_bindings rbs all_results)
  have e1: "extends b0 result_bindings" and es: "list_all (extends b0) rbs"
    using 8(6) by simp_all
  show ?case
  proof (cases "remaining_premises \<noteq> []")
    case True
    from 8(4) True obtain rr st1 where
      pp: "prove_premises n st remaining_premises result_bindings = Some (rr, st1)"
      by (auto split: option.splits)
    have crb: "const_env result_bindings" using e1 by (simp add: extends_def)
    have pb: "list_all (\<lambda>p. bound_in p result_bindings) remaining_premises"
      using 8(8) e1 bound_in_extends by (auto simp: list_all_iff)
    have r1: "ground_memo st1 \<and> list_all (extends result_bindings) rr"
      using 8(1) [OF True pp 8(5) crb pb 8(9)] .
    have d1: "datalog (kb st1)" using datalog_frame [OF frame_all(3) [OF pp] 8(5)] .
    have acc: "list_all (extends b0) (all_results @ rr)"
      using 8(7) extends_list_trans [OF e1] r1 by simp
    have "results_loop n st1 remaining_premises rbs (all_results @ rr) = Some (res, st')"
      using 8(4) True pp by simp
    then show ?thesis
      using 8(2) [OF True pp refl _ d1 es acc 8(8)] r1 by simp
  next
    case False
    have acc: "list_all (extends b0) (all_results @ [result_bindings])" using 8(7) e1 by simp
    have "results_loop n st remaining_premises rbs (all_results @ [result_bindings]) = Some (res, st')"
      using 8(4) False by simp
    then show ?thesis using 8(3) [OF False _ 8(5) es acc 8(8) 8(9)] by simp
  qed
qed

section \<open>The state between top-level calls\<close>




section \<open>Facts about the parser\<close>

lemma set_strip: "set (strip s) \<subseteq> set s"
proof -
  have "set (strip s) \<subseteq> set (dropWhile isspace s)"
    unfolding strip_def using set_dropWhileD [of _ isspace "rev (dropWhile isspace s)"] by auto
  also have "\<dots> \<subseteq> set s" using set_dropWhileD [of _ isspace s] by auto
  finally show ?thesis .
qed

lemma set_rstrip_dot: "set (rstrip_dot s) \<subseteq> set s"
  unfolding rstrip_dot_def using set_dropWhileD [of _ "\<lambda>c. c = CHR ''.''" "rev s"] by auto

lemma fact_regex_paren: "fact_regex t = Some x \<Longrightarrow> CHR ''('' \<in> set t"
proof -
  assume a: "fact_regex t = Some x"
  then obtain c r' where r: "dropWhile isword t = c # r'" and c: "c = CHR ''(''"
    by (auto simp: fact_regex_def Let_def split: if_splits list.splits)
  have "c \<in> set (dropWhile isword t)" using r by simp
  then show ?thesis using c set_dropWhileD by fastforce
qed

lemma parse_prolog_fact_paren: "parse_prolog_fact s = Some f \<Longrightarrow> CHR ''('' \<in> set s"
proof -
  assume "parse_prolog_fact s = Some f"
  then obtain x where "fact_regex (rstrip_dot (strip s)) = Some x"
    by (auto simp: parse_prolog_fact_def Let_def split: option.splits)
  then have "CHR ''('' \<in> set (rstrip_dot (strip s))" by (rule fact_regex_paren)
  then show ?thesis using set_rstrip_dot set_strip by blast
qed

lemma split_neck_chars: "p \<in> set (split_neck s cur) \<Longrightarrow> set p \<subseteq> set s \<union> set cur"
proof (induction s cur arbitrary: p rule: split_neck.induct)
  case (3 c d cs current)
  show ?case
  proof (cases "c = CHR '':'' \<and> d = CHR ''-''")
    case True
    then have "p = current \<or> p \<in> set (split_neck cs [])" using 3(3) by simp
    then show ?thesis using 3(1) [OF True] by auto
  next
    case False
    then have "p \<in> set (split_neck (d # cs) (current @ [c]))" using 3(3) by auto
    then show ?thesis using 3(2) [OF False] by auto
  qed
qed auto

lemma split_neck_nonempty: "split_neck s cur \<noteq> []"
  by (induction s cur rule: split_neck.induct) auto

lemma split_neck_two_contains:
  "split_neck s cur = x # y # zs \<Longrightarrow> contains s '':-''"
proof (induction s cur arbitrary: x y zs rule: split_neck.induct)
  case (3 c d cs current)
  show ?case
  proof (cases "c = CHR '':'' \<and> d = CHR ''-''")
    case True
    then show ?thesis by (simp add: startswith_def)
  next
    case False
    then have "split_neck (d # cs) (current @ [c]) = x # y # zs" using 3(3) by auto
    then have "contains (d # cs) '':-''" using 3(2) [OF False] by blast
    then show ?thesis by simp
  qed
qed auto

lemma parse_prolog_rule_parts:
  assumes "rule_parts s = [c, p]"
  shows "parse_prolog_rule s =
           map_option (\<lambda>h. Rule h (premises_loop (split_premises (strip p)) []))
             (parse_prolog_fact (strip c))"
proof -
  have "contains (rstrip_dot (strip s)) '':-''"
    using assms split_neck_two_contains unfolding rule_parts_def by blast
  then show ?thesis using assms by (simp add: parse_prolog_rule_def split: option.splits)
qed




lemma premises_loop_drop_underscore:
  "premises_loop (filter (\<lambda>q. \<not> starts_underscore q) ps) acc = premises_loop ps acc"
  by (induction ps arbitrary: acc) (auto split: option.splits)

section \<open>The prover: properties\<close>

text \<open>
  Claim C1, as the code has it.  For a ground fact \<open>f\<close> added to the empty knowledge base
  and a depth limit of at least 1, \<^verbatim>\<open>prove(f)\<close> is true and \<^verbatim>\<open>prove_with_bindings(f)\<close>
  returns exactly one environment, the empty one.  \<^verbatim>\<open>extract_query_bindings\<close> then drops
  it (line 461 keeps a solution only if it binds something), so the two calls together
  return the empty list; in general \<^verbatim>\<open>extract_query_bindings\<close> returns no solution at all
  for a goal without variables, whatever list of environments it is given.
\<close>

theorem C1_fact_round_trip:
  assumes "ground f" and "1 \<le> md" and "0 < fuel"
  shows "map_option fst (prove fuel (BackwardChainer (add_fact KnowledgeBase f) tr md) f) = Some True
       \<and> map_option fst (prove_with_bindings fuel (BackwardChainer (add_fact KnowledgeBase f) tr md) f)
           = Some [[]]
       \<and> map_option fst (solve fuel (BackwardChainer (add_fact KnowledgeBase f) tr md) f) = Some []
       \<and> extract_query_bindings f bindings_list = []"
proof -
  obtain n where n: "fuel = Suc n" using assms(3) by (cases fuel) auto
  note bc = backchain_single_fact [OF assms(1) assms(2), of n tr]
  have e: "extract_query_bindings f [[]] = []" using extract_ground [OF assms(1)] .
  show ?thesis
    using bc e extract_ground [OF assms(1)]
    by (simp add: n prove_def prove_with_bindings_def solve_def)
qed

theorem C1_fact_round_trip_witness:
  "ground (Fact ''has_fur'' [''dog'']) \<and> (1::int) \<le> 50 \<and> (0::nat) < 51
   \<and> map_option fst (prove 51 (BackwardChainer (add_fact KnowledgeBase (Fact ''has_fur'' [''dog''])) False 50)
        (Fact ''has_fur'' [''dog''])) = Some True
   \<and> map_option fst (solve 51 (BackwardChainer (add_fact KnowledgeBase (Fact ''has_fur'' [''dog''])) False 50)
        (Fact ''has_fur'' [''dog''])) = Some []"
proof -
  have g: "ground (Fact ''has_fur'' [''dog''])" by (simp add: ground_def is_var_def)
  show ?thesis
    using g C1_fact_round_trip [OF g, of 50 51 False] by simp
qed

text \<open>
  Claim C1 as stated fails: for the fact \<^verbatim>\<open>has_fur(dog)\<close> in an otherwise empty knowledge
  base the solution list is empty, not a list of one solution without bindings.
\<close>

theorem C1_solve_counterexample:
  "map_option fst
     (solve 51 (BackwardChainer (add_fact KnowledgeBase (Fact ''has_fur'' [''dog''])) False default_max_depth)
        (Fact ''has_fur'' [''dog''])) = Some []
   \<and> map_option fst
     (solve 51 (BackwardChainer (add_fact KnowledgeBase (Fact ''has_fur'' [''dog''])) False default_max_depth)
        (Fact ''has_fur'' [''dog''])) \<noteq> Some [[]]"
  by code_simp

text \<open>
  Claim C2, as the code has it.  Lines 240 and 262 insert the goal resolved under the
  match bindings without any test of groundness.  The proved set still holds ground atoms
  only when the knowledge base is in the style of Datalog (ground facts, every variable
  of a rule body in the rule head) and the top-level goal is ground; and what is inserted
  for a ground goal, matched under an environment whose keys are variables, is the goal
  itself.
\<close>

theorem C2_proved_set_ground_datalog:
  assumes "datalog (kb st)" and "ground h"
    and "prove_with_bindings fuel st h = Some (results, st')"
  shows "(\<forall>g \<in> proved_goals st'. ground g)
       \<and> (\<forall>other b match_bindings.
             var_keys b \<longrightarrow> match h other b = Some match_bindings
             \<longrightarrow> substitute h match_bindings = h)"
proof -
  let ?st0 = "clear_proved_goals st"
  have run: "backchain_to_goal fuel ?st0 h [] = Some (results, st')"
    using assms(3) by (simp add: prove_with_bindings_def)
  have d: "datalog (kb ?st0)" using assms(1) by (simp add: clear_proved_goals_def)
  have c: "const_env []" by (simp add: const_env_def)
  have b: "bound_in h []"
    using assms(2) by (auto simp: bound_in_def ground_def list_all_iff filter_empty_conv)
  have g: "ground_memo ?st0" by (simp add: ground_memo_def clear_proved_goals_def)
  have "ground_memo st'" using datalog_all(1) [OF run d c b g] by simp
  moreover have "substitute h match_bindings = h"
    if "var_keys b" and "match h other b = Some match_bindings" for other b match_bindings
    using substitute_ground [OF assms(2)] match_var_keys [OF that] by simp
  ultimately show ?thesis by (auto simp: ground_memo_def)
qed

theorem C2_proved_set_ground_datalog_witness:
  "datalog (kb (BackwardChainer
       \<lparr>facts = [Fact ''eats'' [''dog'', ''meat'']],
        rules = [Rule (Fact ''carnivore'' [''?X'']) [Fact ''eats'' [''?X'', ''meat'']]]\<rparr>
       False 50))
   \<and> ground (Fact ''carnivore'' [''dog''])
   \<and> prove_with_bindings 51
        (BackwardChainer
           \<lparr>facts = [Fact ''eats'' [''dog'', ''meat'']],
            rules = [Rule (Fact ''carnivore'' [''?X'']) [Fact ''eats'' [''?X'', ''meat'']]]\<rparr>
           False 50)
        (Fact ''carnivore'' [''dog''])
      = Some ([[(''?X_1'', ''dog'')]],
              \<lparr>kb = \<lparr>facts = [Fact ''eats'' [''dog'', ''meat'']],
                      rules = [Rule (Fact ''carnivore'' [''?X'']) [Fact ''eats'' [''?X'', ''meat'']]]\<rparr>,
               trace = False, trace_depth = 0,
               proved_goals = {Fact ''carnivore'' [''dog''], Fact ''eats'' [''dog'', ''meat'']},
               rule_counter = 2, max_depth = 50, current_goals = []\<rparr>)
   \<and> ground (Fact ''eats'' [''dog'', ''meat''])"
proof -
  let ?k = "\<lparr>facts = [Fact ''eats'' [''dog'', ''meat'']],
            rules = [Rule (Fact ''carnivore'' [''?X'']) [Fact ''eats'' [''?X'', ''meat'']]]\<rparr>"
  let ?st = "BackwardChainer ?k False 50"
  let ?h = "Fact ''carnivore'' [''dog'']"
  let ?st' = "\<lparr>kb = ?k, trace = False, trace_depth = 0,
               proved_goals = {?h, Fact ''eats'' [''dog'', ''meat'']},
               rule_counter = 2, max_depth = 50, current_goals = []\<rparr>"
  have d: "datalog (kb ?st)" by code_simp
  have g: "ground ?h" by code_simp
  have run: "prove_with_bindings 51 ?st ?h = Some ([[(''?X_1'', ''dog'')]], ?st')"
    by code_simp
  show ?thesis
    using d g run C2_proved_set_ground_datalog [OF d g run] by simp
qed

text \<open>
  Claim C2 as stated fails: the query \<^verbatim>\<open>carnivore(X)\<close> against \<^verbatim>\<open>eats(dog, meat)\<close> and
  \<^verbatim>\<open>carnivore(X) :- eats(X, meat)\<close> succeeds through the rule, and line 262 then inserts
  \<^verbatim>\<open>carnivore(?X_1)\<close>, an atom with a variable.  A ground goal does not help when a rule
  has a body variable that its head lacks: \<^verbatim>\<open>grandparent(john, alice)\<close> leaves
  \<^verbatim>\<open>parent(john, ?Y_3)\<close> in the proved set.
\<close>

theorem C2_nonground_memo_counterexample:
  "(case prove_with_bindings 51
           (BackwardChainer
              (add_rule (add_fact KnowledgeBase (Fact ''eats'' [''dog'', ''meat'']))
                 (Rule (Fact ''carnivore'' [''?X'']) [Fact ''eats'' [''?X'', ''meat'']]))
              False default_max_depth)
           (Fact ''carnivore'' [''?X''])
    of None \<Rightarrow> False
     | Some (results, st') \<Rightarrow>
         Fact ''carnivore'' [''?X_1''] \<in> proved_goals st'
         \<and> \<not> ground (Fact ''carnivore'' [''?X_1'']))
   \<and> (case prove_with_bindings 51
           (BackwardChainer
              \<lparr>facts = [Fact ''father'' [''john'', ''tom''], Fact ''father'' [''tom'', ''alice'']],
               rules = [Rule (Fact ''parent'' [''?X'', ''?Y'']) [Fact ''father'' [''?X'', ''?Y'']],
                        Rule (Fact ''grandparent'' [''?X'', ''?Z''])
                          [Fact ''parent'' [''?X'', ''?Y''], Fact ''parent'' [''?Y'', ''?Z'']]]\<rparr>
              False default_max_depth)
           (Fact ''grandparent'' [''john'', ''alice''])
    of None \<Rightarrow> False
     | Some (results, st') \<Rightarrow>
         Fact ''parent'' [''john'', ''?Y_3''] \<in> proved_goals st'
         \<and> \<not> ground (Fact ''parent'' [''john'', ''?Y_3'']))"
  by code_simp




text \<open>
  Claim C5.  If the goal, after the current environment is applied to it, is already on
  the goal stack, \<^verbatim>\<open>backchain_to_goal\<close> returns no solution and leaves the state as it
  was: no fact is tried, no rule is renamed and nothing is pushed.
\<close>

theorem C5_cycle_fails_branch:
  assumes "substitute h b \<in> set (current_goals st)"
  shows "backchain_to_goal (Suc n) st h b = Some ([], st)"
  using assms by (simp add: Let_def)

theorem C5_cycle_fails_branch_witness:
  "substitute (Fact ''p'' [''?X'']) [(''?X'', ''a'')]
     \<in> set (current_goals
              ((BackwardChainer KnowledgeBase False 50)
                 \<lparr>trace_depth := 1, current_goals := [Fact ''p'' [''a'']]\<rparr>))
   \<and> backchain_to_goal (Suc 0)
        ((BackwardChainer KnowledgeBase False 50)
           \<lparr>trace_depth := 1, current_goals := [Fact ''p'' [''a'']]\<rparr>)
        (Fact ''p'' [''?X'']) [(''?X'', ''a'')]
      = Some ([], (BackwardChainer KnowledgeBase False 50)
                    \<lparr>trace_depth := 1, current_goals := [Fact ''p'' [''a'']]\<rparr>)"
proof -
  let ?st = "(BackwardChainer KnowledgeBase False 50)
                 \<lparr>trace_depth := 1, current_goals := [Fact ''p'' [''a'']]\<rparr>"
  have m: "substitute (Fact ''p'' [''?X'']) [(''?X'', ''a'')] \<in> set (current_goals ?st)"
    by code_simp
  show ?thesis
    using m C5_cycle_fails_branch [OF m, of 0] by simp
qed



text \<open>
  Claim C9 fails on the code.  The suffix of a renamed rule variable comes from the rule
  counter, which is not reset, and a query variable may carry that very name.  For the
  knowledge base \<^verbatim>\<open>q(b). p(a, X) :- q(X).\<close> and the goal \<^verbatim>\<open>p(X_3, b)\<close> the first call
  finds \<^verbatim>\<open>X_3 = a\<close> and leaves the counter at 2; the second call renames the rule variable
  \<^verbatim>\<open>?X\<close> to \<^verbatim>\<open>?X_3\<close>, the name of the query variable, and finds nothing.
\<close>

theorem C9_repeated_solve_differs:
  "parse_prolog_file [''q(b).'', ''p(a, X) :- q(X).'']
     = ([Fact ''q'' [''b'']], [Rule (Fact ''p'' [''a'', ''?X'']) [Fact ''q'' [''?X'']]])
   \<and> parse_prolog_fact ''p(X_3, b)'' = Some (Fact ''p'' [''?X_3'', ''b''])
   \<and> (case solve 51
              (BackwardChainer
                 (add_rule (add_fact KnowledgeBase (Fact ''q'' [''b'']))
                    (Rule (Fact ''p'' [''a'', ''?X'']) [Fact ''q'' [''?X'']]))
                 False default_max_depth)
              (Fact ''p'' [''?X_3'', ''b''])
       of None \<Rightarrow> False
        | Some (first, st') \<Rightarrow>
            first = [[(''?X_3'', ''a'')]]
            \<and> rule_counter st' = 2
            \<and> map_option fst (solve 51 st' (Fact ''p'' [''?X_3'', ''b''])) = Some [])"
  by code_simp

section \<open>The parser: properties\<close>




text \<open>
  Claim C7, as the code has it.  An atom needs its parentheses: a text without \<open>(\<close> is
  no fact for \<^verbatim>\<open>parse_prolog_fact\<close> and no clause for \<^verbatim>\<open>parse_prolog_line\<close>.
\<close>

theorem C7_bare_identifier_not_parsed:
  assumes "CHR ''('' \<notin> set s"
  shows "parse_prolog_fact s = None \<and> parse_prolog_line s = None"
proof -
  have pf: "parse_prolog_fact t = None" if "set t \<subseteq> set s" for t
    using that assms parse_prolog_fact_paren [of t] by (cases "parse_prolog_fact t") auto
  have line: "set (strip s) \<subseteq> set s" by (rule set_strip)
  have "parse_prolog_rule (strip s) = None"
  proof (cases "rule_parts (strip s)")
    case Nil
    then show ?thesis by (simp add: parse_prolog_rule_def)
  next
    case (Cons c ps)
    have "c \<in> set (split_neck (rstrip_dot (strip (strip s))) [])"
      using Cons by (simp add: rule_parts_def)
    then have "set c \<subseteq> set (rstrip_dot (strip (strip s)))"
      using split_neck_chars by fastforce
    then have "set (strip c) \<subseteq> set s"
      using set_strip set_rstrip_dot by blast
    then have "parse_prolog_fact (strip c) = None" by (rule pf)
    then show ?thesis using Cons
      by (auto simp: parse_prolog_rule_def split: list.splits)
  qed
  then show ?thesis using pf [OF line] pf [of s]
    by (simp add: parse_prolog_line_def Let_def)
qed

theorem C7_bare_identifier_not_parsed_witness:
  "CHR ''('' \<notin> set ''happy.'' \<and> parse_prolog_fact ''happy.'' = None
   \<and> parse_prolog_line ''happy.'' = None"
  using C7_bare_identifier_not_parsed [of "''happy.''"] by simp

text \<open>
  Claim C7 as stated fails: \<^verbatim>\<open>happy.\<close> is skipped, and a file that holds only this clause
  yields no fact; written \<^verbatim>\<open>happy().\<close> it is a fact without arguments.
\<close>

theorem C7_bare_identifier_counterexample:
  "parse_prolog_fact ''happy.'' = None \<and> parse_prolog_line ''happy.'' = None
   \<and> parse_prolog_file [''happy.''] = ([], [])
   \<and> parse_prolog_file [''happy().''] = ([Fact ''happy'' []], [])"
  by code_simp



text \<open>
  Claim C10.  A premise whose text starts with an underscore has no effect on the loop
  over the premises, and the rule is returned with the body that the other premises give.
\<close>

theorem C10_underscore_premises_skipped:
  assumes "rule_parts s = [c, p]" and "parse_prolog_fact (strip c) = Some h"
  shows "parse_prolog_rule s =
           Some (Rule h (premises_loop
                          (filter (\<lambda>q. \<not> starts_underscore q) (split_premises (strip p))) []))
       \<and> (\<forall>q qs acc. starts_underscore q \<longrightarrow> premises_loop (q # qs) acc = premises_loop qs acc)"
  using parse_prolog_rule_parts [OF assms(1)] assms(2)
  by (simp add: premises_loop_drop_underscore)

theorem C10_underscore_premises_skipped_witness:
  "rule_parts ''p(X) :- q(X), _aux(X), r(X).'' = [''p(X) '', '' q(X), _aux(X), r(X)'']
   \<and> parse_prolog_fact (strip ''p(X) '') = Some (Fact ''p'' [''?X''])
   \<and> parse_prolog_fact ''_aux(X)'' = Some (Fact ''_aux'' [''?X''])
   \<and> parse_prolog_rule ''p(X) :- q(X), _aux(X), r(X).''
     = Some (Rule (Fact ''p'' [''?X'']) [Fact ''q'' [''?X''], Fact ''r'' [''?X'']])"
proof -
  let ?s = "''p(X) :- q(X), _aux(X), r(X).''"
  let ?c = "''p(X) ''"
  let ?p = "'' q(X), _aux(X), r(X)''"
  have a: "rule_parts ?s = [?c, ?p]" by code_simp
  have b: "parse_prolog_fact (strip ?c) = Some (Fact ''p'' [''?X''])" by code_simp
  have x: "parse_prolog_fact ''_aux(X)'' = Some (Fact ''_aux'' [''?X''])" by code_simp
  have e: "premises_loop (filter (\<lambda>q. \<not> starts_underscore q) (split_premises (strip ?p))) []
             = [Fact ''q'' [''?X''], Fact ''r'' [''?X'']]"
    by code_simp
  show ?thesis
    using a b x e C10_underscore_premises_skipped [OF a b] by simp
qed

end
